theory Spec2Isabelle
  imports Main "HOL-Library.Sublist"
begin

section \<open>Embedding of \<open>src/05-objects-tasks.js\<close>\<close>

text \<open>
  JavaScript strings are modelled as \<^typ>\<open>string\<close>, a thrown \<open>Error\<close> as a value of
  type \<open>error\<close> carrying its message, and every method that may throw returns
  \<open>error + 'a\<close> with \<open>Inl\<close> for the exception. A method that mutates \<open>this\<close> takes the
  object and returns the updated one.
\<close>

subsection \<open>Rectangle\<close>

text \<open>
  \<open>function Rectangle(width, height)\<close> stores \<open>height\<close>, then \<open>width\<close>. The number type
  and its multiplication are parameters of the model: \<open>'n\<close> stands for the JavaScript
  numbers and \<open>mul\<close> for the operator \<open>*\<close> on them.
\<close>

record 'n Rectangle_obj =
  height :: 'n
  width :: 'n

definition Rectangle :: "'n \<Rightarrow> 'n \<Rightarrow> 'n Rectangle_obj" where
  "Rectangle w h = \<lparr>height = h, width = w\<rparr>"

text \<open>\<open>getArea\<close> returns \<open>this.height * this.width\<close>; the object is returned beside the
  result, as it is after the call.\<close>

definition getArea :: "('n \<Rightarrow> 'n \<Rightarrow> 'n) \<Rightarrow> 'n Rectangle_obj \<Rightarrow> 'n \<times> 'n Rectangle_obj" where
  "getArea mul r = (mul (height r) (width r), r)"

subsection \<open>Strings\<close>

text \<open>\<open>String.prototype.includes\<close>: does the pattern occur somewhere in the string as a
  contiguous run of characters.\<close>

fun includes_str :: "string \<Rightarrow> string \<Rightarrow> bool" where
  "includes_str [] p = (p = [])"
| "includes_str (c # s) p = (prefix p (c # s) \<or> includes_str s p)"

subsection \<open>Errors\<close>

datatype error = Error string

text \<open>The two messages, each assembled from two literals as in the source. The source
  throws plain \<open>Error\<close> objects; the names of the two kinds are the specification's.\<close>

definition DuplicateSelectorError :: error where
  "DuplicateSelectorError =
     Error (''Element, id and pseudo-element should''
            @ '' not occur more then one time inside the selector'')"

definition OrderError :: error where
  "OrderError =
     Error (''Selector parts should be arranged in the following order: ''
            @ ''element, id, class, attribute, pseudo-class, pseudo-element'')"

subsection \<open>The facade object and the builder class\<close>

text \<open>The facade \<open>cssSelectorBuilder\<close> has one field, \<open>str\<close>. Its record is declared
  first, so that the plain name \<open>str\<close> below is the builder's field and the facade's is
  written \<open>cssSelectorBuilder.str\<close>.\<close>

record cssSelectorBuilder =
  str :: string

record MyCssSelectorBuilder =
  str :: string
  hasElement :: bool

text \<open>\<open>new MyCssSelectorBuilder()\<close>\<close>

definition new_MyCssSelectorBuilder :: MyCssSelectorBuilder where
  "new_MyCssSelectorBuilder = \<lparr>str = [], hasElement = False\<rparr>"

definition stringify :: "MyCssSelectorBuilder \<Rightarrow> string \<times> MyCssSelectorBuilder" where
  "stringify b = (let result = str b in (result, b\<lparr>str := []\<rparr>))"

text \<open>\<open>if (this.str)\<close> holds for a non-empty string.\<close>

definition element :: "string \<Rightarrow> MyCssSelectorBuilder \<Rightarrow> error + MyCssSelectorBuilder" where
  "element v b =
     (if hasElement b then Inl DuplicateSelectorError
      else if str b \<noteq> [] then Inl OrderError
      else Inr ((b\<lparr>hasElement := True\<rparr>)\<lparr>str := str b @ v\<rparr>))"

definition idfn :: "string \<Rightarrow> MyCssSelectorBuilder \<Rightarrow> error + MyCssSelectorBuilder" where
  "idfn v b =
     (if includes_str (str b) ''#'' then Inl DuplicateSelectorError
      else if includes_str (str b) ''.'' then Inl OrderError
      else if includes_str (str b) ''['' then Inl OrderError
      else if includes_str (str b) '':'' then Inl OrderError
      else if includes_str (str b) ''::'' then Inl OrderError
      else Inr (b\<lparr>str := str b @ ''#'' @ v\<rparr>))"

definition classfn :: "string \<Rightarrow> MyCssSelectorBuilder \<Rightarrow> error + MyCssSelectorBuilder" where
  "classfn v b =
     (if includes_str (str b) ''['' then Inl OrderError
      else if includes_str (str b) '':'' then Inl OrderError
      else if includes_str (str b) ''::'' then Inl OrderError
      else Inr (b\<lparr>str := str b @ ''.'' @ v\<rparr>))"

definition attr :: "string \<Rightarrow> MyCssSelectorBuilder \<Rightarrow> error + MyCssSelectorBuilder" where
  "attr v b =
     (if includes_str (str b) '':'' \<or> includes_str (str b) ''::'' then Inl OrderError
      else Inr (b\<lparr>str := str b @ ''['' @ v @ '']''\<rparr>))"

definition pseudoClass :: "string \<Rightarrow> MyCssSelectorBuilder \<Rightarrow> error + MyCssSelectorBuilder" where
  "pseudoClass v b =
     (if includes_str (str b) ''::'' then Inl OrderError
      else Inr (b\<lparr>str := str b @ '':'' @ v\<rparr>))"

definition pseudoElement :: "string \<Rightarrow> MyCssSelectorBuilder \<Rightarrow> error + MyCssSelectorBuilder" where
  "pseudoElement v b =
     (if includes_str (str b) ''::'' then Inl DuplicateSelectorError
      else Inr (b\<lparr>str := str b @ ''::'' @ v\<rparr>))"

subsection \<open>The facade's methods\<close>

definition cssSelectorBuilder_stringify :: "cssSelectorBuilder \<Rightarrow> string \<times> cssSelectorBuilder" where
  "cssSelectorBuilder_stringify f =
     (let result = cssSelectorBuilder.str f in (result, f\<lparr>cssSelectorBuilder.str := []\<rparr>))"

definition cssSelectorBuilder_element :: "string \<Rightarrow> error + MyCssSelectorBuilder" where
  "cssSelectorBuilder_element v = element v new_MyCssSelectorBuilder"

definition cssSelectorBuilder_id :: "string \<Rightarrow> error + MyCssSelectorBuilder" where
  "cssSelectorBuilder_id v = idfn v new_MyCssSelectorBuilder"

definition cssSelectorBuilder_class :: "string \<Rightarrow> error + MyCssSelectorBuilder" where
  "cssSelectorBuilder_class v = classfn v new_MyCssSelectorBuilder"

definition cssSelectorBuilder_attr :: "string \<Rightarrow> error + MyCssSelectorBuilder" where
  "cssSelectorBuilder_attr v = attr v new_MyCssSelectorBuilder"

definition cssSelectorBuilder_pseudoClass :: "string \<Rightarrow> error + MyCssSelectorBuilder" where
  "cssSelectorBuilder_pseudoClass v = pseudoClass v new_MyCssSelectorBuilder"

definition cssSelectorBuilder_pseudoElement :: "string \<Rightarrow> error + MyCssSelectorBuilder" where
  "cssSelectorBuilder_pseudoElement v = pseudoElement v new_MyCssSelectorBuilder"

text \<open>\<open>combine\<close> stringifies the first selector, then the second, appends the joined
  text to the facade's own \<open>str\<close> and returns the facade. The two selectors are two
  builder objects; both are returned as they are left.\<close>

definition combine ::
  "cssSelectorBuilder \<Rightarrow> MyCssSelectorBuilder \<Rightarrow> string \<Rightarrow> MyCssSelectorBuilder
     \<Rightarrow> cssSelectorBuilder \<times> MyCssSelectorBuilder \<times> MyCssSelectorBuilder" where
  "combine f selector1 combinator selector2 =
     (let (a, selector1') = stringify selector1;
          (b, selector2') = stringify selector2
      in (f\<lparr>cssSelectorBuilder.str :=
              cssSelectorBuilder.str f @ a @ '' '' @ combinator @ '' '' @ b\<rparr>,
          selector1', selector2'))"

subsection \<open>Chains of calls\<close>

text \<open>A call of one of the six mutators is its kind and its argument. A chain runs the
  calls from left to right on one builder and stops at the first exception.\<close>

datatype kind = KElement | KId | KClass | KAttr | KPseudoClass | KPseudoElement

type_synonym call = "kind \<times> string"

fun apply_call :: "call \<Rightarrow> MyCssSelectorBuilder \<Rightarrow> error + MyCssSelectorBuilder" where
  "apply_call (KElement, v) b = element v b"
| "apply_call (KId, v) b = idfn v b"
| "apply_call (KClass, v) b = classfn v b"
| "apply_call (KAttr, v) b = attr v b"
| "apply_call (KPseudoClass, v) b = pseudoClass v b"
| "apply_call (KPseudoElement, v) b = pseudoElement v b"

fun run :: "call list \<Rightarrow> MyCssSelectorBuilder \<Rightarrow> error + MyCssSelectorBuilder" where
  "run [] b = Inr b"
| "run (c # cs) b = (case apply_call c b of Inl e \<Rightarrow> Inl e | Inr b' \<Rightarrow> run cs b')"

text \<open>The facade's six kind-constructors, by kind.\<close>

fun cssSelectorBuilder_call :: "call \<Rightarrow> error + MyCssSelectorBuilder" where
  "cssSelectorBuilder_call (KElement, v) = cssSelectorBuilder_element v"
| "cssSelectorBuilder_call (KId, v) = cssSelectorBuilder_id v"
| "cssSelectorBuilder_call (KClass, v) = cssSelectorBuilder_class v"
| "cssSelectorBuilder_call (KAttr, v) = cssSelectorBuilder_attr v"
| "cssSelectorBuilder_call (KPseudoClass, v) = cssSelectorBuilder_pseudoClass v"
| "cssSelectorBuilder_call (KPseudoElement, v) = cssSelectorBuilder_pseudoElement v"

text \<open>A chain that starts at the facade runs all its calls on one new builder: the
  facade's constructor makes the builder and the first call on it (\<open>chain_starts_at_facade\<close>
  below).\<close>

definition chain :: "call list \<Rightarrow> error + MyCssSelectorBuilder" where
  "chain cs = run cs new_MyCssSelectorBuilder"

text \<open>Any sequence of method calls on one builder: the six mutators and \<open>stringify()\<close>,
  whose returned text is dropped here.\<close>

datatype method_call = Mutator call | Stringify

fun invoke :: "method_call \<Rightarrow> MyCssSelectorBuilder \<Rightarrow> error + MyCssSelectorBuilder" where
  "invoke (Mutator c) b = apply_call c b"
| "invoke Stringify b = Inr (snd (stringify b))"

fun run_methods :: "method_call list \<Rightarrow> MyCssSelectorBuilder \<Rightarrow> error + MyCssSelectorBuilder" where
  "run_methods [] b = Inr b"
| "run_methods (m # ms) b = (case invoke m b of Inl e \<Rightarrow> Inl e | Inr b' \<Rightarrow> run_methods ms b')"

fun mutators :: "method_call list \<Rightarrow> call list" where
  "mutators [] = []"
| "mutators (Mutator c # ms) = c # mutators ms"
| "mutators (Stringify # ms) = mutators ms"

subsection \<open>The specification's vocabulary\<close>

text \<open>The text each call contributes, with the documented separators.\<close>

fun token :: "call \<Rightarrow> string" where
  "token (KElement, v) = v"
| "token (KId, v) = ''#'' @ v"
| "token (KClass, v) = ''.'' @ v"
| "token (KAttr, v) = ''['' @ v @ '']''"
| "token (KPseudoClass, v) = '':'' @ v"
| "token (KPseudoElement, v) = ''::'' @ v"

text \<open>The canonical sequence: element, id, class(es), attribute(s), pseudo-class(es),
  pseudo-element. A list of kinds is canonical when its kinds are in that order and
  element, id and pseudo-element occur at most once each. Said call by call
  (\<open>precedes\<close>): a kind may come before a later kind, and before itself when it may
  repeat.\<close>

fun rank :: "kind \<Rightarrow> nat" where
  "rank KElement = 0"
| "rank KId = 1"
| "rank KClass = 2"
| "rank KAttr = 3"
| "rank KPseudoClass = 4"
| "rank KPseudoElement = 5"

fun repeatable :: "kind \<Rightarrow> bool" where
  "repeatable KClass = True"
| "repeatable KAttr = True"
| "repeatable KPseudoClass = True"
| "repeatable _ = False"

definition precedes :: "kind \<Rightarrow> kind \<Rightarrow> bool" where
  "precedes a b = (rank a < rank b \<or> (a = b \<and> repeatable a))"

definition canonical :: "kind list \<Rightarrow> bool" where
  "canonical ks =
     (sorted (map rank ks) \<and> count_list ks KElement \<le> 1 \<and> count_list ks KId \<le> 1
      \<and> count_list ks KPseudoElement \<le> 1)"

text \<open>What the builder keeps of a successful call of each kind: the flag for \<open>element\<close>,
  the separator in the buffer for the others.\<close>

fun written :: "kind \<Rightarrow> MyCssSelectorBuilder \<Rightarrow> bool" where
  "written KElement b = hasElement b"
| "written KId b = includes_str (str b) ''#''"
| "written KClass b = includes_str (str b) ''.''"
| "written KAttr b = includes_str (str b) ''[''"
| "written KPseudoClass b = includes_str (str b) '':''"
| "written KPseudoElement b = includes_str (str b) ''::''"

text \<open>Values that no later guard mistakes for a separator. First the single
  characters: the guard of \<open>id\<close> scans for \<open>#\<close>, \<open>.\<close>, \<open>[\<close>, \<open>:\<close>, that of \<open>class\<close>
  for \<open>[\<close>, \<open>:\<close>, that of \<open>attr\<close> for \<open>:\<close>, so a value must have none of the characters
  that the guards of the calls after it scan for.\<close>

definition scanned_chars :: "kind list \<Rightarrow> string" where
  "scanned_chars later =
     (if KId \<in> set later then ''#.[:''
      else if KClass \<in> set later then ''[:''
      else if KAttr \<in> set later then '':''
      else [])"

fun chars_fit :: "call list \<Rightarrow> bool" where
  "chars_fit [] = True"
| "chars_fit ((k, v) # rest) =
     (set v \<inter> set (scanned_chars (map fst rest)) = {} \<and> chars_fit rest)"

text \<open>Then the double colon, which the guards of \<open>pseudoClass\<close> and \<open>pseudoElement\<close> scan
  for. It is scanned for in what the calls before the last such call have written:
  there no token may contain \<open>::\<close>, and no token that ends in \<open>:\<close> may be followed
  directly by a pseudo-class token.\<close>

definition pseudo_follows :: "kind list \<Rightarrow> bool" where
  "pseudo_follows later = (KPseudoClass \<in> set later \<or> KPseudoElement \<in> set later)"

fun before_last_pseudo :: "call list \<Rightarrow> call list" where
  "before_last_pseudo [] = []"
| "before_last_pseudo (c # rest) =
     (if pseudo_follows (map fst rest) then c # before_last_pseudo rest else [])"

definition ends_colon :: "string \<Rightarrow> bool" where
  "ends_colon t = (t \<noteq> [] \<and> last t = CHR '':'')"

fun tokens_apart :: "call list \<Rightarrow> bool" where
  "tokens_apart [] = True"
| "tokens_apart [c] = (\<not> includes_str (token c) ''::'')"
| "tokens_apart (c # (k, v) # rest) =
     (\<not> includes_str (token c) ''::''
      \<and> \<not> (k = KPseudoClass \<and> ends_colon (token c))
      \<and> tokens_apart ((k, v) # rest))"

definition values_fit :: "call list \<Rightarrow> bool" where
  "values_fit cs = (chars_fit cs \<and> tokens_apart (before_last_pseudo cs))"

section \<open>Properties\<close>

subsection \<open>Substring search, error kinds and the effect of a successful call\<close>

lemma includes_str_sublist: "includes_str s p = sublist p s"
  by (induction s) (simp_all add: sublist_Cons_right)

lemma includes_str_single: "includes_str s [c] = (c \<in> set s)"
  by (induction s) auto

lemma includes_str_append: "includes_str s p \<Longrightarrow> includes_str (s @ t) p"
  unfolding includes_str_sublist by (metis sublist_append)

lemma includes_str_hd_mem: "includes_str s (c # p) \<Longrightarrow> c \<in> set s"
  by (induction s) (auto simp: prefix_Cons)

lemma error_kinds_distinct: "DuplicateSelectorError \<noteq> OrderError"
  by (simp add: DuplicateSelectorError_def OrderError_def)

text \<open>A call that succeeds appends its token to the buffer, and only \<open>element\<close> touches
  the flag.\<close>

lemma apply_call_effect:
  assumes "apply_call c b = Inr b'"
  shows "str b' = str b @ token c \<and> hasElement b' = (hasElement b \<or> fst c = KElement)"
proof (cases c)
  case (Pair k v)
  with assms show ?thesis
    by (cases k)
      (auto simp: element_def idfn_def classfn_def attr_def pseudoClass_def pseudoElement_def
            split: if_splits)
qed

lemma run_effect:
  "run cs b = Inr b' \<Longrightarrow>
     str b' = str b @ concat (map token cs)
     \<and> hasElement b' = (hasElement b \<or> KElement \<in> fst ` set cs)"
proof (induction cs arbitrary: b)
  case Nil
  then show ?case by simp
next
  case (Cons c cs)
  from Cons.prems obtain b1 where s1: "apply_call c b = Inr b1" and s2: "run cs b1 = Inr b'"
    by (auto split: sum.splits)
  from apply_call_effect [OF s1] Cons.IH [OF s2] show ?case by auto
qed

lemma run_snoc:
  "run (cs @ [c]) b = (case run cs b of Inl e \<Rightarrow> Inl e | Inr b' \<Rightarrow> apply_call c b')"
  by (induction cs arbitrary: b) (auto split: sum.splits)

lemma run_keeps_includes:
  "run cs b = Inr b' \<Longrightarrow> includes_str (str b) p \<Longrightarrow> includes_str (str b') p"
  using run_effect [of cs b b'] by (simp add: includes_str_append)

lemma chain_starts_at_facade:
  "chain (c # cs) = (case cssSelectorBuilder_call c of Inl e \<Rightarrow> Inl e | Inr b \<Rightarrow> run cs b)"
  by (cases c rule: cssSelectorBuilder_call.cases)
    (simp_all add: chain_def cssSelectorBuilder_element_def cssSelectorBuilder_id_def
       cssSelectorBuilder_class_def cssSelectorBuilder_attr_def
       cssSelectorBuilder_pseudoClass_def cssSelectorBuilder_pseudoElement_def)

subsection \<open>The canonical order, call by call\<close>

lemma rank_inj: "rank a = rank b \<Longrightarrow> a = b"
  by (cases a; cases b) simp_all

lemma canonical_snoc:
  "canonical (ks @ [k]) = (canonical ks \<and> (\<forall>a\<in>set ks. precedes a k))"
proof -
  have le: "(rank a \<le> rank k) = (rank a < rank k \<or> a = k)" for a
    using rank_inj [of a k] by (cases "rank a = rank k") auto
  show ?thesis
  proof (cases "repeatable k")
    case True
    then have nk: "k \<noteq> KElement" "k \<noteq> KId" "k \<noteq> KPseudoElement" by auto
    have "precedes a k = (rank a \<le> rank k)" for a
      using True le [of a] by (auto simp: precedes_def)
    then show ?thesis
      unfolding canonical_def using nk by (auto simp: sorted_append)
  next
    case False
    have p: "precedes a k = (rank a < rank k)" for a
      using False by (auto simp: precedes_def)
    have strict: "((\<forall>a\<in>set ks. rank a \<le> rank k) \<and> k \<notin> set ks) = (\<forall>a\<in>set ks. rank a < rank k)"
      using le by auto
    have cnt: "(count_list ks KElement + (if k = KElement then 1 else 0) \<le> 1
                \<and> count_list ks KId + (if k = KId then 1 else 0) \<le> 1
                \<and> count_list ks KPseudoElement + (if k = KPseudoElement then 1 else 0) \<le> 1)
               = (count_list ks KElement \<le> 1 \<and> count_list ks KId \<le> 1
                  \<and> count_list ks KPseudoElement \<le> 1 \<and> k \<notin> set ks)"
      using False by (cases k) (auto simp: count_list_0_iff)
    have "canonical (ks @ [k]) =
            (sorted (map rank ks) \<and> (\<forall>a\<in>set ks. rank a \<le> rank k)
             \<and> count_list ks KElement + (if k = KElement then 1 else 0) \<le> 1
             \<and> count_list ks KId + (if k = KId then 1 else 0) \<le> 1
             \<and> count_list ks KPseudoElement + (if k = KPseudoElement then 1 else 0) \<le> 1)"
      unfolding canonical_def by (auto simp: sorted_append)
    also have "\<dots> = (sorted (map rank ks) \<and> count_list ks KElement \<le> 1 \<and> count_list ks KId \<le> 1
                  \<and> count_list ks KPseudoElement \<le> 1
                  \<and> ((\<forall>a\<in>set ks. rank a \<le> rank k) \<and> k \<notin> set ks))"
      unfolding cnt by blast
    finally show ?thesis
      unfolding strict p canonical_def by blast
  qed
qed

text \<open>Each successful call leaves its mark, marks stay, and a guard that passes has seen
  the marks of earlier kinds only.\<close>

lemma written_established: "apply_call (k, v) b = Inr b' \<Longrightarrow> written k b'"
  by (cases k)
    (auto simp: element_def idfn_def classfn_def attr_def pseudoClass_def pseudoElement_def
          includes_str_sublist simp del: append.simps split: if_splits)

lemma written_kept:
  assumes "apply_call c b = Inr b'" "written a b"
  shows "written a b'"
proof -
  from apply_call_effect [OF assms(1)]
  have "str b' = str b @ token c" and "hasElement b \<longrightarrow> hasElement b'" by simp_all
  with assms(2) show ?thesis by (cases a) (simp_all add: includes_str_append)
qed

lemma guard_order:
  assumes "apply_call (k, v) b = Inr b'" "written a b"
  shows "precedes a k"
proof -
  have dc: "includes_str (str b) ''::'' \<Longrightarrow> includes_str (str b) '':''"
    using includes_str_hd_mem [of "str b" "CHR '':''" "'':''"] by (simp add: includes_str_single)
  from assms dc show ?thesis
    by (cases k; cases a)
      (auto simp: element_def idfn_def classfn_def attr_def pseudoClass_def pseudoElement_def
            precedes_def split: if_splits)
qed

lemma run_canonical:
  "run cs b0 = Inr b \<Longrightarrow> canonical (map fst cs) \<and> (\<forall>a\<in>fst ` set cs. written a b)"
proof (induction cs arbitrary: b rule: rev_induct)
  case Nil
  then show ?case by (simp add: canonical_def)
next
  case (snoc c cs)
  from snoc.prems obtain b1 where r: "run cs b0 = Inr b1"
    and s: "apply_call c b1 = Inr b"
    by (auto simp: run_snoc split: sum.splits)
  obtain k v where c: "c = (k, v)" by (cases c)
  from snoc.IH [OF r] have can: "canonical (map fst cs)"
    and wr: "\<forall>a\<in>fst ` set cs. written a b1" by simp_all
  have "\<forall>a\<in>set (map fst cs). precedes a k"
    using wr guard_order [OF s [unfolded c]] by auto
  with can have "canonical (map fst (cs @ [c]))"
    by (simp add: c canonical_snoc)
  moreover have "\<forall>a\<in>fst ` set (cs @ [c]). written a b"
    using wr written_kept [OF s] written_established [OF s [unfolded c]] by (auto simp: c)
  ultimately show ?case by simp
qed

lemma run_methods_mutators:
  "Stringify \<notin> set ms \<Longrightarrow> run_methods ms b = run (mutators ms) b"
proof (induction ms arbitrary: b)
  case Nil
  then show ?case by simp
next
  case (Cons m ms)
  then show ?case by (cases m) (auto split: sum.splits)
qed

subsection \<open>Buffers without a double colon\<close>

lemma double_colon_append:
  "includes_str (s @ t) ''::'' =
     (includes_str s ''::'' \<or> includes_str t ''::''
      \<or> (s \<noteq> [] \<and> t \<noteq> [] \<and> last s = CHR '':'' \<and> hd t = CHR '':''))"
proof (induction s)
  case Nil
  then show ?case by simp
next
  case (Cons c s)
  show ?case
  proof (cases s)
    case Nil
    then show ?thesis by (cases t) auto
  next
    case (Cons d u)
    with Cons.IH show ?thesis by auto
  qed
qed

subsection \<open>When a guard passes\<close>

lemma colon_of_double_colon: "\<not> includes_str s '':'' \<Longrightarrow> \<not> includes_str s ''::''"
  using includes_str_hd_mem [of s "CHR '':''" "'':''"] by (auto simp: includes_str_single)

lemma element_succeeds: "(\<exists>b'. element v b = Inr b') = (\<not> hasElement b \<and> str b = [])"
  by (simp add: element_def)

lemma idfn_succeeds: "(\<exists>b'. idfn v b = Inr b') = (set (str b) \<inter> set ''#.[:'' = {})"
  using colon_of_double_colon [of "str b"] by (auto simp: idfn_def includes_str_single)

lemma classfn_succeeds: "(\<exists>b'. classfn v b = Inr b') = (set (str b) \<inter> set ''[:'' = {})"
  using colon_of_double_colon [of "str b"] by (auto simp: classfn_def includes_str_single)

lemma attr_succeeds: "(\<exists>b'. attr v b = Inr b') = (set (str b) \<inter> set '':'' = {})"
  using colon_of_double_colon [of "str b"] by (auto simp: attr_def includes_str_single)

lemma pseudoClass_succeeds: "(\<exists>b'. pseudoClass v b = Inr b') = (\<not> includes_str (str b) ''::'')"
  by (simp add: pseudoClass_def)

lemma pseudoElement_succeeds: "(\<exists>b'. pseudoElement v b = Inr b') = (\<not> includes_str (str b) ''::'')"
  by (simp add: pseudoElement_def)

lemma run_snoc_succeeds:
  "(\<exists>b'. run (cs @ [c]) b0 = Inr b') = (\<exists>b. run cs b0 = Inr b \<and> (\<exists>b'. apply_call c b = Inr b'))"
  by (auto simp: run_snoc split: sum.splits)

subsection \<open>Values that fit, call by call\<close>

lemma scanned_chars_snoc:
  "set (scanned_chars (ks @ [k])) = set (scanned_chars ks) \<union> set (scanned_chars [k])"
  by (cases k) (auto simp: scanned_chars_def)

lemma chars_fit_snoc:
  "chars_fit (cs @ [(k, v)]) =
     (chars_fit cs \<and> (\<forall>c\<in>set cs. set (snd c) \<inter> set (scanned_chars [k]) = {}))"
proof (induction cs)
  case Nil
  then show ?case by (simp add: scanned_chars_def)
next
  case (Cons c cs)
  obtain a w where c: "c = (a, w)" by (cases c)
  have "set w \<inter> set (scanned_chars (map fst cs @ [k])) = {}
          \<longleftrightarrow> set w \<inter> set (scanned_chars (map fst cs)) = {} \<and> set w \<inter> set (scanned_chars [k]) = {}"
    unfolding scanned_chars_snoc by blast
  with Cons show ?case by (auto simp: c)
qed

lemma pseudo_follows_snoc:
  "pseudo_follows (ks @ [k]) = (pseudo_follows ks \<or> k = KPseudoClass \<or> k = KPseudoElement)"
  by (auto simp: pseudo_follows_def)

lemma before_last_pseudo_snoc:
  "before_last_pseudo (cs @ [(k, v)]) =
     (if k = KPseudoClass \<or> k = KPseudoElement then cs else before_last_pseudo cs)"
  by (induction cs) (auto simp: pseudo_follows_snoc pseudo_follows_def)

lemma tokens_apart_before: "tokens_apart cs \<Longrightarrow> tokens_apart (before_last_pseudo cs)"
proof (induction cs rule: tokens_apart.induct)
  case 1
  then show ?case by simp
next
  case (2 c)
  then show ?case by (simp add: pseudo_follows_def)
next
  case (3 c k v rest)
  then show ?case by auto
qed

lemma token_nonempty: "k \<noteq> KElement \<Longrightarrow> token (k, v) \<noteq> []"
  by (cases k) simp_all

lemma token_hd_colon:
  "k \<noteq> KElement \<Longrightarrow> k \<noteq> KPseudoElement \<Longrightarrow> (hd (token (k, v)) = CHR '':'') = (k = KPseudoClass)"
  by (cases k) simp_all

lemma tokens_apart_text:
  "\<forall>c\<in>set cs. fst c \<noteq> KPseudoElement \<Longrightarrow> KElement \<notin> fst ` set (tl cs) \<Longrightarrow>
     tokens_apart cs = (\<not> includes_str (concat (map token cs)) ''::'')"
proof (induction cs)
  case Nil
  then show ?case by simp
next
  case (Cons c rest)
  show ?case
  proof (cases rest)
    case Nil
    then show ?thesis by simp
  next
    case (Cons d rest')
    obtain k v where d: "d = (k, v)" by (cases d)
    from Cons.prems Cons d have k: "k \<noteq> KElement" "k \<noteq> KPseudoElement" by auto
    let ?R = "concat (map token rest)"
    have R: "?R \<noteq> []" "hd ?R = hd (token (k, v))"
      using token_nonempty [OF k(1), of v] by (simp_all add: Cons d)
    have "\<forall>c\<in>set rest. fst c \<noteq> KPseudoElement" "KElement \<notin> fst ` set (tl rest)"
      using Cons.prems Cons by auto
    from Cons.IH [OF this] have ih: "tokens_apart rest = (\<not> includes_str ?R ''::'')" .
    have "includes_str (token c @ ?R) ''::'' =
            (includes_str (token c) ''::'' \<or> includes_str ?R ''::''
             \<or> (ends_colon (token c) \<and> k = KPseudoClass))"
      using R token_hd_colon [OF k, of v]
      by (auto simp: double_colon_append ends_colon_def)
    with ih show ?thesis by (auto simp: Cons d)
  qed
qed

lemma canonical_element_first: "canonical ks \<Longrightarrow> KElement \<notin> set (tl ks)"
proof (cases ks)
  case Nil
  then show ?thesis by simp
next
  case (Cons k ks')
  assume can: "canonical ks"
  show ?thesis
  proof
    assume "KElement \<in> set (tl ks)"
    with Cons have in_tl: "KElement \<in> set ks'" by simp
    with can Cons have "rank k \<le> rank KElement" by (auto simp: canonical_def)
    then have "k = KElement" by (cases k) simp_all
    moreover from in_tl have "count_list ks' KElement \<noteq> 0" by (simp add: count_list_0_iff)
    ultimately show False using can Cons by (simp add: canonical_def)
  qed
qed

lemma precedes_cases:
  "precedes a KId = (a = KElement)"
  "precedes a KClass = (a = KElement \<or> a = KId \<or> a = KClass)"
  "precedes a KAttr = (a = KElement \<or> a = KId \<or> a = KClass \<or> a = KAttr)"
  by (cases a; simp add: precedes_def)+

lemma token_chars:
  assumes "precedes a k" "k = KId \<or> k = KClass \<or> k = KAttr"
  shows "(set (token (a, w)) \<inter> set (scanned_chars [k]) = {})
           = (set w \<inter> set (scanned_chars [k]) = {})"
proof -
  consider "k = KId" | "k = KClass" | "k = KAttr" using assms(2) by blast
  then show ?thesis
  proof cases
    case 1
    with assms(1) show ?thesis by (simp add: precedes_cases)
  next
    case 2
    with assms(1) have "a = KElement \<or> a = KId \<or> a = KClass" by (simp add: precedes_cases)
    then show ?thesis by (elim disjE) (simp_all add: 2 scanned_chars_def)
  next
    case 3
    with assms(1) have "a = KElement \<or> a = KId \<or> a = KClass \<or> a = KAttr"
      by (simp add: precedes_cases)
    then show ?thesis by (elim disjE) (simp_all add: 3 scanned_chars_def)
  qed
qed


lemma text_chars:
  assumes "\<forall>c\<in>set cs. precedes (fst c) k" "k = KId \<or> k = KClass \<or> k = KAttr"
  shows "(set (concat (map token cs)) \<inter> set (scanned_chars [k]) = {})
           = (\<forall>c\<in>set cs. set (snd c) \<inter> set (scanned_chars [k]) = {})"
  using assms(1)
proof (induction cs)
  case Nil
  then show ?case by simp
next
  case (Cons c cs)
  obtain a w where c: "c = (a, w)" by (cases c)
  from Cons.prems have "precedes a k" by (simp add: c)
  note tc = token_chars [OF this assms(2), of w]
  from Cons.prems have "\<forall>c\<in>set cs. precedes (fst c) k" by simp
  note ih = Cons.IH [OF this]
  have "(set (concat (map token (c # cs))) \<inter> set (scanned_chars [k]) = {})
          = (set (token (a, w)) \<inter> set (scanned_chars [k]) = {}
             \<and> set (concat (map token cs)) \<inter> set (scanned_chars [k]) = {})"
    unfolding c by (simp add: Int_Un_distrib2)
  then show ?case unfolding tc ih by (simp add: c)
qed

text \<open>A chain in the canonical order succeeds exactly when its values fit.\<close>

lemma canonical_succeeds_iff:
  "canonical (map fst cs) \<Longrightarrow>
     (\<exists>b. run cs new_MyCssSelectorBuilder = Inr b) = values_fit cs"
proof (induction cs rule: rev_induct)
  case Nil
  then show ?case by (simp add: values_fit_def)
next
  case (snoc c cs)
  obtain k v where c: "c = (k, v)" by (cases c)
  from snoc.prems have can: "canonical (map fst cs)"
    and prec: "\<forall>c\<in>set cs. precedes (fst c) k"
    by (simp_all add: c canonical_snoc)
  note ih = snoc.IH [OF can]
  let ?T = "concat (map token cs)"
  have state: "str b = ?T \<and> hasElement b = (KElement \<in> fst ` set cs)"
    if "run cs new_MyCssSelectorBuilder = Inr b" for b
    using run_effect [OF that] by (simp add: new_MyCssSelectorBuilder_def)
  show ?case
  proof (cases "k = KPseudoClass \<or> k = KPseudoElement")
    case True
    have nope: "\<forall>c\<in>set cs. fst c \<noteq> KPseudoElement"
      using prec True by (auto simp: precedes_def)
    have "KElement \<notin> fst ` set (tl cs)"
      using canonical_element_first [OF can] by (simp add: map_tl [symmetric])
    from tokens_apart_text [OF nope this]
    have apart: "tokens_apart cs = (\<not> includes_str ?T ''::'')" .
    have pass: "(\<exists>b'. apply_call c b = Inr b') = (\<not> includes_str (str b) ''::'')" for b
      using True
      by (elim disjE) (simp_all only: c apply_call.simps pseudoClass_succeeds pseudoElement_succeeds)
    have "(\<exists>b'. apply_call c b = Inr b') = tokens_apart cs"
      if "run cs new_MyCssSelectorBuilder = Inr b" for b
      unfolding pass apart using state [OF that] by simp
    then have "(\<exists>b'. run (cs @ [c]) new_MyCssSelectorBuilder = Inr b')
                 = ((\<exists>b. run cs new_MyCssSelectorBuilder = Inr b) \<and> tokens_apart cs)"
      unfolding run_snoc_succeeds by blast
    also have "\<dots> = (values_fit cs \<and> tokens_apart cs)" by (simp add: ih)
    also have "\<dots> = (chars_fit cs \<and> tokens_apart cs)"
      using tokens_apart_before [of cs] by (auto simp: values_fit_def)
    also have "\<dots> = values_fit (cs @ [c])"
      using True
      by (auto simp: values_fit_def c chars_fit_snoc before_last_pseudo_snoc scanned_chars_def)
    finally show ?thesis .
  next
    case False
    show ?thesis
    proof (cases "k = KElement")
      case True
      with prec have "cs = []" by (cases cs) (auto simp: precedes_def)
      then show ?thesis
        by (simp add: c True values_fit_def element_def new_MyCssSelectorBuilder_def
              scanned_chars_def pseudo_follows_def)
    next
      case notE: False
      with False have k: "k = KId \<or> k = KClass \<or> k = KAttr" by (cases k) simp_all
      let ?X = "\<forall>c\<in>set cs. set (snd c) \<inter> set (scanned_chars [k]) = {}"
      have "(\<exists>b'. apply_call c b = Inr b') = ?X"
        if "run cs new_MyCssSelectorBuilder = Inr b" for b
      proof -
        have "(\<exists>b'. apply_call c b = Inr b') = (set (str b) \<inter> set (scanned_chars [k]) = {})"
          using k
          by (elim disjE)
            (simp_all only: c apply_call.simps idfn_succeeds classfn_succeeds attr_succeeds
               scanned_chars_def, simp_all)
        with state [OF that]
        have "(\<exists>b'. apply_call c b = Inr b') = (set ?T \<inter> set (scanned_chars [k]) = {})"
          by simp
        with text_chars [OF prec k] show ?thesis by simp
      qed
      then have "(\<exists>b'. run (cs @ [c]) new_MyCssSelectorBuilder = Inr b')
                   = ((\<exists>b. run cs new_MyCssSelectorBuilder = Inr b) \<and> ?X)"
        unfolding run_snoc_succeeds by blast
      also have "\<dots> = (values_fit cs \<and> ?X)" by (simp add: ih)
      also have "\<dots> = values_fit (cs @ [c])"
        using False
        by (auto simp: values_fit_def c chars_fit_snoc before_last_pseudo_snoc)
      finally show ?thesis .
    qed
  qed
qed


subsection \<open>Rectangle\<close>

text \<open>
  C10. \<open>new Rectangle(w, h)\<close> has \<open>width = w\<close> and \<open>height = h\<close>; \<open>getArea()\<close> returns
  the product \<open>height * width\<close> and leaves the object as it was. For a commutative
  multiplication, as that of the JavaScript numbers is, this product is \<open>w * h\<close>.
\<close>

theorem rectangle_fields_and_area:
  "height (Rectangle w h) = h \<and> width (Rectangle w h) = w
   \<and> getArea mul (Rectangle w h) = (mul h w, Rectangle w h)
   \<and> ((\<forall>a b. mul a b = mul b a) \<longrightarrow> fst (getArea mul (Rectangle w h)) = mul w h)"
  by (simp add: Rectangle_def getArea_def)

theorem rectangle_fields_and_area_witness:
  "(\<forall>a b :: int. a * b = b * a)
   \<and> height (Rectangle (10::int) 20) = 20 \<and> width (Rectangle (10::int) 20) = 10
   \<and> fst (getArea (*) (Rectangle (10::int) 20)) = 200"
  using rectangle_fields_and_area [of "10::int" 20 "(*)"] by (simp add: mult.commute)

subsection \<open>stringify\<close>

text \<open>
  C7. \<open>stringify()\<close> is total: for every builder it returns the current buffer and
  leaves the buffer empty (the flag is not touched), so a second \<open>stringify()\<close> right
  after it returns the empty string.
\<close>

theorem stringify_returns_and_resets:
  "fst (stringify b) = str b \<and> str (snd (stringify b)) = []
   \<and> hasElement (snd (stringify b)) = hasElement b
   \<and> fst (stringify (snd (stringify b))) = []"
  by (simp add: stringify_def)

text \<open>
  C9. \<open>stringify()\<close> resets the buffer only. Once \<open>element\<close> has succeeded on a
  builder, whatever mutators succeed after it, \<open>stringify()\<close> leaves an empty buffer
  and a flag that is still set, and the next \<open>element\<close> call raises
  \<open>DuplicateSelectorError\<close>.
\<close>

theorem stringify_keeps_element_flag:
  "element v b = Inr b1 \<Longrightarrow> run cs b1 = Inr b2 \<Longrightarrow>
     str (snd (stringify b2)) = [] \<and> hasElement (snd (stringify b2))
     \<and> element w (snd (stringify b2)) = Inl DuplicateSelectorError"
proof -
  assume e: "element v b = Inr b1" and r: "run cs b1 = Inr b2"
  from e have "hasElement b1" by (auto simp: element_def split: if_splits)
  with run_effect [OF r] have "hasElement b2" by simp
  then show ?thesis by (simp add: stringify_def element_def)
qed

theorem stringify_keeps_element_flag_witness:
  "element ''div'' new_MyCssSelectorBuilder = Inr \<lparr>str = ''div'', hasElement = True\<rparr>
   \<and> run [(KClass, ''box'')] \<lparr>str = ''div'', hasElement = True\<rparr>
       = Inr \<lparr>str = ''div.box'', hasElement = True\<rparr>
   \<and> stringify \<lparr>str = ''div.box'', hasElement = True\<rparr>
       = (''div.box'', \<lparr>str = [], hasElement = True\<rparr>)
   \<and> element ''p'' \<lparr>str = [], hasElement = True\<rparr> = Inl DuplicateSelectorError"
proof -
  have e: "element ''div'' new_MyCssSelectorBuilder = Inr \<lparr>str = ''div'', hasElement = True\<rparr>"
    by (simp add: element_def new_MyCssSelectorBuilder_def)
  have r: "run [(KClass, ''box'')] \<lparr>str = ''div'', hasElement = True\<rparr>
             = Inr \<lparr>str = ''div.box'', hasElement = True\<rparr>"
    by (simp add: classfn_def)
  have s: "stringify \<lparr>str = ''div.box'', hasElement = True\<rparr>
             = (''div.box'', \<lparr>str = [], hasElement = True\<rparr>)"
    by (simp add: stringify_def)
  from stringify_keeps_element_flag [OF e r, of "''p''"] e r s show ?thesis by simp
qed

subsection \<open>combine\<close>

text \<open>
  C3. For two builders \<open>l\<close>, \<open>r\<close> and any string \<open>c\<close>, \<open>combine(l, c, r)\<close> stringifies
  \<open>l\<close> and \<open>r\<close>, which empties the buffer of each, and appends
  \<open>stringify(l) + ' ' + c + ' ' + stringify(r)\<close> to the facade's own buffer; the facade
  is what it returns. From an empty facade buffer,
  \<open>combine(element('div').id('main'), '+', element('table').id('data')).stringify()\<close>
  is \<open>div#main + table#data\<close>.
\<close>

theorem combine_appends_to_facade:
  "combine f l c r =
     (f\<lparr>cssSelectorBuilder.str :=
          cssSelectorBuilder.str f @ fst (stringify l) @ '' '' @ c @ '' '' @ fst (stringify r)\<rparr>,
      snd (stringify l), snd (stringify r))
   \<and> fst (stringify l) = str l \<and> fst (stringify r) = str r
   \<and> str (snd (stringify l)) = [] \<and> str (snd (stringify r)) = []
   \<and> chain [(KElement, ''div''), (KId, ''main'')] = Inr \<lparr>str = ''div#main'', hasElement = True\<rparr>
   \<and> chain [(KElement, ''table''), (KId, ''data'')] = Inr \<lparr>str = ''table#data'', hasElement = True\<rparr>
   \<and> fst (cssSelectorBuilder_stringify
            (fst (combine \<lparr>cssSelectorBuilder.str = []\<rparr>
                    \<lparr>str = ''div#main'', hasElement = True\<rparr> ''+''
                    \<lparr>str = ''table#data'', hasElement = True\<rparr>)))
       = ''div#main + table#data''"
  by (simp add: combine_def stringify_def chain_def element_def idfn_def
        new_MyCssSelectorBuilder_def cssSelectorBuilder_stringify_def)

subsection \<open>The guards of element, id and pseudoElement\<close>

text \<open>
  C4. \<open>element(value)\<close> raises \<open>DuplicateSelectorError\<close>, with the message quoted in
  the statement, when the flag says an element is present; raises \<open>OrderError\<close> when
  the flag is clear and the buffer is not empty; otherwise appends \<open>value\<close> as it is and
  sets the flag. After a successful \<open>element\<close>, and whatever mutators succeed after it,
  a second \<open>element\<close> raises \<open>DuplicateSelectorError\<close>.
\<close>

theorem element_guard:
  "(hasElement b \<longrightarrow> element v b = Inl DuplicateSelectorError)
   \<and> (\<not> hasElement b \<and> str b \<noteq> [] \<longrightarrow> element v b = Inl OrderError)
   \<and> (\<not> hasElement b \<and> str b = [] \<longrightarrow>
        element v b = Inr (b\<lparr>hasElement := True, str := str b @ v\<rparr>))
   \<and> DuplicateSelectorError =
        Error ''Element, id and pseudo-element should not occur more then one time inside the selector''
   \<and> (element v b = Inr b1 \<and> run cs b1 = Inr b2 \<longrightarrow> element w b2 = Inl DuplicateSelectorError)"
proof -
  have twice: "element w b2 = Inl DuplicateSelectorError"
    if "element v b = Inr b1" "run cs b1 = Inr b2"
  proof -
    from that(1) have "hasElement b1" by (auto simp: element_def split: if_splits)
    with run_effect [OF that(2)] have "hasElement b2" by simp
    then show ?thesis by (simp add: element_def)
  qed
  show ?thesis using twice by (simp add: element_def DuplicateSelectorError_def)
qed

theorem element_guard_witness:
  "element ''p'' \<lparr>str = ''div'', hasElement = True\<rparr> = Inl DuplicateSelectorError
   \<and> element ''p'' \<lparr>str = ''#main'', hasElement = False\<rparr> = Inl OrderError
   \<and> element ''div'' \<lparr>str = [], hasElement = False\<rparr> = Inr \<lparr>str = ''div'', hasElement = True\<rparr>
   \<and> run [(KId, ''main'')] \<lparr>str = ''div'', hasElement = True\<rparr>
       = Inr \<lparr>str = ''div#main'', hasElement = True\<rparr>
   \<and> element ''p'' \<lparr>str = ''div#main'', hasElement = True\<rparr> = Inl DuplicateSelectorError"
  using element_guard [of "\<lparr>str = ''div'', hasElement = True\<rparr>" "''p''"]
        element_guard [of "\<lparr>str = ''#main'', hasElement = False\<rparr>" "''p''"]
        element_guard [of "\<lparr>str = [], hasElement = False\<rparr>" "''div''"
                          "\<lparr>str = ''div'', hasElement = True\<rparr>" "[(KId, ''main'')]"
                          "\<lparr>str = ''div#main'', hasElement = True\<rparr>" "''p''"]
  by (simp add: idfn_def)

text \<open>
  C5, as the source has it. \<open>id(value)\<close> raises \<open>DuplicateSelectorError\<close> exactly when
  the buffer contains \<open>#\<close>; without \<open>#\<close> it raises \<open>OrderError\<close> exactly when the
  buffer contains \<open>.\<close>, \<open>[\<close> or \<open>:\<close>; with none of the four it appends \<open>#value\<close>.
  After a chain in which a class, attr, pseudoClass or pseudoElement call succeeded, \<open>id\<close>
  fails: with \<open>DuplicateSelectorError\<close> when the buffer contains \<open>#\<close>, with
  \<open>OrderError\<close> when it does not.
\<close>

theorem id_guard:
  "(idfn v b = Inl DuplicateSelectorError \<longleftrightarrow> includes_str (str b) ''#'')
   \<and> (\<not> includes_str (str b) ''#'' \<longrightarrow>
        (idfn v b = Inl OrderError \<longleftrightarrow>
           includes_str (str b) ''.'' \<or> includes_str (str b) ''['' \<or> includes_str (str b) '':''))
   \<and> (\<not> includes_str (str b) ''#'' \<and> \<not> includes_str (str b) ''.''
        \<and> \<not> includes_str (str b) ''['' \<and> \<not> includes_str (str b) '':'' \<longrightarrow>
        idfn v b = Inr (b\<lparr>str := str b @ ''#'' @ v\<rparr>))
   \<and> (run cs b0 = Inr b
        \<and> (KClass \<in> fst ` set cs \<or> KAttr \<in> fst ` set cs
            \<or> KPseudoClass \<in> fst ` set cs \<or> KPseudoElement \<in> fst ` set cs) \<longrightarrow>
        idfn v b = Inl (if includes_str (str b) ''#'' then DuplicateSelectorError else OrderError))"
proof -
  have dc: "\<not> includes_str (str b) ''::''" if "\<not> includes_str (str b) '':''"
    using that includes_str_hd_mem [of "str b" "CHR '':''" "'':''"]
    by (auto simp: includes_str_single)
  have later: "includes_str (str b) ''.'' \<or> includes_str (str b) ''['' \<or> includes_str (str b) '':''"
    if r: "run cs b0 = Inr b" and k: "k \<in> fst ` set cs"
      and kk: "k = KClass \<or> k = KAttr \<or> k = KPseudoClass \<or> k = KPseudoElement" for k
  proof -
    from k obtain w where "(k, w) \<in> set cs" by auto
    then have "set (token (k, w)) \<subseteq> set (concat (map token cs))" by auto
    with run_effect [OF r] have "set (token (k, w)) \<subseteq> set (str b)" by auto
    with kk show ?thesis by (auto simp: includes_str_single)
  qed
  have part: "idfn v b = Inl (if includes_str (str b) ''#'' then DuplicateSelectorError else OrderError)"
    if "includes_str (str b) ''.'' \<or> includes_str (str b) ''['' \<or> includes_str (str b) '':''"
    using that by (auto simp: idfn_def)
  show ?thesis
    using dc later part error_kinds_distinct
    by (auto simp: idfn_def)
qed

theorem id_guard_witness:
  "includes_str ''#a'' ''#''
   \<and> idfn ''x'' \<lparr>str = ''#a'', hasElement = False\<rparr> = Inl DuplicateSelectorError
   \<and> \<not> includes_str ''.a'' ''#'' \<and> includes_str ''.a'' ''.''
   \<and> idfn ''x'' \<lparr>str = ''.a'', hasElement = False\<rparr> = Inl OrderError
   \<and> idfn ''x'' \<lparr>str = ''div'', hasElement = True\<rparr> = Inr \<lparr>str = ''div#x'', hasElement = True\<rparr>
   \<and> run [(KClass, ''a'')] \<lparr>str = ''div'', hasElement = True\<rparr>
       = Inr \<lparr>str = ''div.a'', hasElement = True\<rparr>
   \<and> idfn ''x'' \<lparr>str = ''div.a'', hasElement = True\<rparr> = Inl OrderError"
  using id_guard [of "''x''" "\<lparr>str = ''#a'', hasElement = False\<rparr>"]
        id_guard [of "''x''" "\<lparr>str = ''.a'', hasElement = False\<rparr>"]
        id_guard [of "''x''" "\<lparr>str = ''div'', hasElement = True\<rparr>"]
        id_guard [of "''x''" "\<lparr>str = ''div.a'', hasElement = True\<rparr>" "[(KClass, ''a'')]"
                     "\<lparr>str = ''div'', hasElement = True\<rparr>"]
  by (simp add: classfn_def)

text \<open>
  C5, as the claim states it, fails: \<open>id('main').class('box')\<close> succeeds, and \<open>id\<close>
  called after that class call raises \<open>DuplicateSelectorError\<close>, which is not
  \<open>OrderError\<close>.
\<close>

theorem id_after_class_counterexample:
  "chain [(KId, ''main''), (KClass, ''box'')] = Inr \<lparr>str = ''#main.box'', hasElement = False\<rparr>
   \<and> idfn ''other'' \<lparr>str = ''#main.box'', hasElement = False\<rparr> = Inl DuplicateSelectorError
   \<and> DuplicateSelectorError \<noteq> OrderError"
  by (simp add: chain_def new_MyCssSelectorBuilder_def idfn_def classfn_def
        DuplicateSelectorError_def OrderError_def)

text \<open>
  C6, as the source has it. \<open>pseudoElement(value)\<close> raises \<open>DuplicateSelectorError\<close>
  exactly when the buffer contains \<open>::\<close>, and appends \<open>::value\<close> otherwise. A second
  \<open>pseudoElement\<close> on a builder, after a first one that succeeded and with no
  \<open>stringify()\<close> among the calls made since, raises \<open>DuplicateSelectorError\<close>.
\<close>

theorem pseudoElement_guard:
  "(pseudoElement v b = Inl DuplicateSelectorError \<longleftrightarrow> includes_str (str b) ''::'')
   \<and> (\<not> includes_str (str b) ''::'' \<longrightarrow> pseudoElement v b = Inr (b\<lparr>str := str b @ ''::'' @ v\<rparr>))
   \<and> (pseudoElement v b = Inr b1 \<and> Stringify \<notin> set ms \<and> run_methods ms b1 = Inr b2 \<longrightarrow>
        pseudoElement w b2 = Inl DuplicateSelectorError)"
proof -
  have twice: "pseudoElement w b2 = Inl DuplicateSelectorError"
    if "pseudoElement v b = Inr b1" "Stringify \<notin> set ms" "run_methods ms b1 = Inr b2"
  proof -
    from that(1) have "str b1 = str b @ ''::'' @ v"
      by (auto simp: pseudoElement_def split: if_splits)
    then have "includes_str (str b1) ''::''"
      by (simp add: includes_str_sublist del: append.simps)
    moreover from that(2,3) have "run (mutators ms) b1 = Inr b2"
      by (simp add: run_methods_mutators)
    ultimately have "includes_str (str b2) ''::''" by (rule run_keeps_includes [rotated])
    then show ?thesis by (simp add: pseudoElement_def)
  qed
  show ?thesis using twice by (auto simp: pseudoElement_def)
qed

theorem pseudoElement_guard_witness:
  "includes_str ''a::before'' ''::''
   \<and> pseudoElement ''after'' \<lparr>str = ''a::before'', hasElement = True\<rparr> = Inl DuplicateSelectorError
   \<and> \<not> includes_str ''a:hover'' ''::''
   \<and> pseudoElement ''after'' \<lparr>str = ''a:hover'', hasElement = True\<rparr>
       = Inr \<lparr>str = ''a:hover::after'', hasElement = True\<rparr>
   \<and> Stringify \<notin> set []
   \<and> run_methods [] \<lparr>str = ''a:hover::after'', hasElement = True\<rparr>
       = Inr \<lparr>str = ''a:hover::after'', hasElement = True\<rparr>
   \<and> pseudoElement ''before'' \<lparr>str = ''a:hover::after'', hasElement = True\<rparr>
       = Inl DuplicateSelectorError"
  using pseudoElement_guard [of "''after''" "\<lparr>str = ''a::before'', hasElement = True\<rparr>"]
        pseudoElement_guard [of "''after''" "\<lparr>str = ''a:hover'', hasElement = True\<rparr>"
           "\<lparr>str = ''a:hover::after'', hasElement = True\<rparr>" "[]"
           "\<lparr>str = ''a:hover::after'', hasElement = True\<rparr>" "''before''"]
  by simp

text \<open>
  C6, as the claim states it, fails: \<open>stringify()\<close> empties the buffer, which is all
  that the guard reads. On one builder \<open>pseudoElement('before')\<close>, \<open>stringify()\<close>,
  \<open>pseudoElement('after')\<close> all succeed.
\<close>

theorem pseudoElement_after_stringify_counterexample:
  "pseudoElement ''before'' new_MyCssSelectorBuilder
     = Inr \<lparr>str = ''::before'', hasElement = False\<rparr>
   \<and> stringify \<lparr>str = ''::before'', hasElement = False\<rparr>
       = (''::before'', \<lparr>str = [], hasElement = False\<rparr>)
   \<and> pseudoElement ''after'' \<lparr>str = [], hasElement = False\<rparr>
       = Inr \<lparr>str = ''::after'', hasElement = False\<rparr>
   \<and> run_methods [Mutator (KPseudoElement, ''before''), Stringify,
                    Mutator (KPseudoElement, ''after'')] new_MyCssSelectorBuilder
       = Inr \<lparr>str = ''::after'', hasElement = False\<rparr>"
  by (simp add: pseudoElement_def stringify_def new_MyCssSelectorBuilder_def)

subsection \<open>The flag\<close>

text \<open>
  C8, as the source has it. The flag \<open>hasElement\<close> is true after every successful
  \<open>element\<close> call; a successful \<open>pseudoElement\<close> call leaves it as it was; after a chain
  of successful calls on a new builder it is true exactly when the chain has an
  \<open>element\<close> call.
\<close>

theorem flag_tracks_element_only:
  "(element v b = Inr b' \<longrightarrow> hasElement b')
   \<and> (pseudoElement v b = Inr b' \<longrightarrow> hasElement b' = hasElement b)
   \<and> (chain cs = Inr b' \<longrightarrow> hasElement b' = (KElement \<in> fst ` set cs))"
  using run_effect [of cs new_MyCssSelectorBuilder b']
  by (auto simp: element_def pseudoElement_def chain_def new_MyCssSelectorBuilder_def
           split: if_splits)

theorem flag_tracks_element_only_witness:
  "element ''div'' new_MyCssSelectorBuilder = Inr \<lparr>str = ''div'', hasElement = True\<rparr>
   \<and> pseudoElement ''after'' new_MyCssSelectorBuilder = Inr \<lparr>str = ''::after'', hasElement = False\<rparr>
   \<and> hasElement new_MyCssSelectorBuilder = False
   \<and> chain [(KId, ''main''), (KPseudoElement, ''after'')]
       = Inr \<lparr>str = ''#main::after'', hasElement = False\<rparr>
   \<and> KElement \<notin> fst ` set [(KId, ''main''), (KPseudoElement, ''after'')]"
proof -
  have e: "element ''div'' new_MyCssSelectorBuilder = Inr \<lparr>str = ''div'', hasElement = True\<rparr>"
    by (simp add: element_def new_MyCssSelectorBuilder_def)
  have p: "pseudoElement ''after'' new_MyCssSelectorBuilder
             = Inr \<lparr>str = ''::after'', hasElement = False\<rparr>"
    by (simp add: pseudoElement_def new_MyCssSelectorBuilder_def)
  have c: "chain [(KId, ''main''), (KPseudoElement, ''after'')]
             = Inr \<lparr>str = ''#main::after'', hasElement = False\<rparr>"
    by (simp add: chain_def idfn_def pseudoElement_def new_MyCssSelectorBuilder_def)
  from flag_tracks_element_only [of "''div''" new_MyCssSelectorBuilder
         "\<lparr>str = ''div'', hasElement = True\<rparr>" "[]"]
       flag_tracks_element_only [of "''after''" new_MyCssSelectorBuilder
         "\<lparr>str = ''::after'', hasElement = False\<rparr>" "[]"]
       flag_tracks_element_only [of "''x''" new_MyCssSelectorBuilder
         "\<lparr>str = ''#main::after'', hasElement = False\<rparr>"
         "[(KId, ''main''), (KPseudoElement, ''after'')]"]
       e p c
  show ?thesis by simp
qed

text \<open>
  C8, as the claim states it, fails: after the successful call
  \<open>pseudoElement('after')\<close> on a new builder the flag is false.
\<close>

theorem pseudoElement_leaves_flag_counterexample:
  "cssSelectorBuilder_pseudoElement ''after'' = Inr \<lparr>str = ''::after'', hasElement = False\<rparr>
   \<and> \<not> hasElement \<lparr>str = ''::after'', hasElement = False\<rparr>"
  by (simp add: cssSelectorBuilder_pseudoElement_def pseudoElement_def
        new_MyCssSelectorBuilder_def)

subsection \<open>Chains\<close>

text \<open>
  C2, as the source has it. For mutator calls made on one builder one after the other
  with no \<open>stringify()\<close> among them, whatever state the builder is in at the first: when
  every call succeeds, the kinds of the calls are in the order element, id, class(es),
  attribute(s), pseudo-class(es), pseudo-element, with element, id and pseudo-element at
  most once each.
\<close>

theorem successful_calls_are_canonical:
  "Stringify \<notin> set ms \<Longrightarrow> run_methods ms b0 = Inr b \<Longrightarrow> canonical (map fst (mutators ms))"
  using run_canonical [of "mutators ms" b0 b] by (simp add: run_methods_mutators)

theorem successful_calls_are_canonical_witness:
  "Stringify \<notin> set [Mutator (KElement, ''a''), Mutator (KAttr, ''href''),
                      Mutator (KPseudoClass, ''focus'')]
   \<and> run_methods [Mutator (KElement, ''a''), Mutator (KAttr, ''href''),
                    Mutator (KPseudoClass, ''focus'')] new_MyCssSelectorBuilder
       = Inr \<lparr>str = ''a[href]:focus'', hasElement = True\<rparr>
   \<and> canonical [KElement, KAttr, KPseudoClass]"
proof -
  let ?ms = "[Mutator (KElement, ''a''), Mutator (KAttr, ''href''),
              Mutator (KPseudoClass, ''focus'')]"
  have n: "Stringify \<notin> set ?ms" by simp
  have r: "run_methods ?ms new_MyCssSelectorBuilder
             = Inr \<lparr>str = ''a[href]:focus'', hasElement = True\<rparr>"
    by (simp add: new_MyCssSelectorBuilder_def element_def attr_def pseudoClass_def)
  from successful_calls_are_canonical [OF n r] n r show ?thesis by simp
qed

text \<open>
  C2, as the claim states it, fails: \<open>stringify()\<close> empties the buffer, which is all
  that the guards of \<open>id\<close> and \<open>pseudoElement\<close> read. On one new builder
  \<open>id('a')\<close>, \<open>pseudoElement('x')\<close>, \<open>stringify()\<close>, \<open>id('b')\<close>, \<open>pseudoElement('y')\<close>
  all succeed, and the mutator calls among them have id and pseudo-element twice.
\<close>

theorem stringify_between_calls_counterexample:
  "run_methods [Mutator (KId, ''a''), Mutator (KPseudoElement, ''x''), Stringify,
                Mutator (KId, ''b''), Mutator (KPseudoElement, ''y'')] new_MyCssSelectorBuilder
     = Inr \<lparr>str = ''#b::y'', hasElement = False\<rparr>
   \<and> map fst (mutators [Mutator (KId, ''a''), Mutator (KPseudoElement, ''x''), Stringify,
                          Mutator (KId, ''b''), Mutator (KPseudoElement, ''y'')])
       = [KId, KPseudoElement, KId, KPseudoElement]
   \<and> \<not> canonical [KId, KPseudoElement, KId, KPseudoElement]"
  by (simp add: new_MyCssSelectorBuilder_def idfn_def pseudoElement_def stringify_def
        canonical_def)

text \<open>
  C1, as the source has it. A chain from the facade whose kinds are in the canonical
  order, and whose values fit in the sense of \<open>values_fit\<close>, raises no error, and
  \<open>stringify()\<close> returns the concatenation of the tokens in call order. The condition is
  exact: a chain in the canonical order whose values do not fit raises an error.
\<close>

theorem canonical_chain_stringifies:
  assumes "canonical (map fst cs)"
  shows "(values_fit cs \<longrightarrow>
            (\<exists>b. chain cs = Inr b \<and> fst (stringify b) = concat (map token cs)))
         \<and> (\<not> values_fit cs \<longrightarrow> (\<exists>e. chain cs = Inl e))"
proof -
  note iff = canonical_succeeds_iff [OF assms]
  have "\<exists>b. chain cs = Inr b \<and> fst (stringify b) = concat (map token cs)" if "values_fit cs"
  proof -
    from that iff obtain b where r: "run cs new_MyCssSelectorBuilder = Inr b" by blast
    from run_effect [OF r] have "str b = concat (map token cs)"
      by (simp add: new_MyCssSelectorBuilder_def)
    with r show ?thesis by (simp add: chain_def stringify_def)
  qed
  moreover have "\<exists>e. chain cs = Inl e" if "\<not> values_fit cs"
  proof (cases "chain cs")
    case (Inl e)
    then show ?thesis by blast
  next
    case (Inr b)
    with that iff show ?thesis by (simp add: chain_def)
  qed
  ultimately show ?thesis by blast
qed

theorem canonical_chain_stringifies_witness:
  "canonical (map fst [(KElement, ''a''), (KPseudoClass, ''not(:hover)''),
                       (KPseudoClass, ''focus''), (KPseudoElement, ''after'')])
   \<and> values_fit [(KElement, ''a''), (KPseudoClass, ''not(:hover)''),
                   (KPseudoClass, ''focus''), (KPseudoElement, ''after'')]
   \<and> chain [(KElement, ''a''), (KPseudoClass, ''not(:hover)''),
               (KPseudoClass, ''focus''), (KPseudoElement, ''after'')]
        = Inr \<lparr>str = ''a:not(:hover):focus::after'', hasElement = True\<rparr>
   \<and> fst (stringify \<lparr>str = ''a:not(:hover):focus::after'', hasElement = True\<rparr>)
        = ''a:not(:hover):focus::after''
   \<and> canonical (map fst [(KElement, ''a:''), (KPseudoClass, ''x''), (KPseudoClass, ''y'')])
   \<and> \<not> values_fit [(KElement, ''a:''), (KPseudoClass, ''x''), (KPseudoClass, ''y'')]
   \<and> chain [(KElement, ''a:''), (KPseudoClass, ''x''), (KPseudoClass, ''y'')] = Inl OrderError"
proof -
  let ?cs = "[(KElement, ''a''), (KPseudoClass, ''not(:hover)''),
              (KPseudoClass, ''focus''), (KPseudoElement, ''after'')]"
  let ?ds = "[(KElement, ''a:''), (KPseudoClass, ''x''), (KPseudoClass, ''y'')]"
  have c: "canonical (map fst ?cs)" and d: "canonical (map fst ?ds)"
    by (simp_all add: canonical_def)
  have v: "values_fit ?cs" and w: "\<not> values_fit ?ds"
    by (simp_all add: values_fit_def scanned_chars_def pseudo_follows_def ends_colon_def)
  from canonical_chain_stringifies [OF c] canonical_chain_stringifies [OF d] c d v w
  show ?thesis
    by (simp add: chain_def new_MyCssSelectorBuilder_def element_def pseudoClass_def
          pseudoElement_def stringify_def)
qed

text \<open>
  C1, as the claim states it, fails: the guards scan the buffer for the separators, the
  values included. \<open>element('a').attr('xlink:href').attr('title')\<close> is in the canonical
  order and raises \<open>OrderError\<close> at the second \<open>attr\<close>.
\<close>

theorem marker_in_value_counterexample:
  "canonical (map fst [(KElement, ''a''), (KAttr, ''xlink:href''), (KAttr, ''title'')])
   \<and> chain [(KElement, ''a''), (KAttr, ''xlink:href''), (KAttr, ''title'')] = Inl OrderError"
  by (simp add: canonical_def chain_def new_MyCssSelectorBuilder_def element_def attr_def)

end
